theory Spec2Isabelle
  imports Main
begin

section \<open>The debounced invocation controller (src/hooks/useDebounce.ts)\<close>

text \<open>
  The hook \<open>useAdvancedDebounce\<close> keeps three mutable references and one piece of React
  state, and talks to the host's timer service (\<open>setTimeout\<close>, \<open>clearTimeout\<close>).
  The model threads one record through every operation. It holds

  \<^item> the controller's own fields, named as in the source: \<open>callbackRef\<close>,
    \<open>timeoutRef\<close>, \<open>argsRef\<close>, \<open>isPending\<close>;
  \<^item> the host's side: the clock \<open>now\<close>, the next timer handle \<open>next_handle\<close> and
    the list \<open>timers\<close> of scheduled callbacks, each a pair of its handle and the time
    it becomes due. Every callback the hook passes to \<open>setTimeout\<close> is the same closure
    over the three references, so an entry needs no code of its own;
  \<^item> a ghost field \<open>calls\<close>: one entry per evaluation of
    \<open>callbackRef.current(...argsRef.current)\<close>, with the time, the function called and
    the arguments passed.

  The bound action is a function from the argument array to \<open>None\<close> (it returned; both
  call sites discard the value) or \<open>Some e\<close> (it threw \<open>e\<close>). It is taken not to
  call back into the controller.
\<close>

type_synonym handle = nat
type_synonym time = nat
type_synonym ('a, 'e) action = "'a list \<Rightarrow> 'e option"

record ('a, 'e) controller =
  callbackRef :: "('a, 'e) action"
  timeoutRef :: "handle option"
  argsRef :: "'a list option"
  isPending :: bool
  now :: time
  next_handle :: handle
  timers :: "(handle \<times> time) list"
  calls :: "(time \<times> ('a, 'e) action \<times> 'a list) list"

text \<open>
  The state of a freshly mounted hook: \<open>useRef(callback)\<close>, \<open>useRef(undefined)\<close>,
  \<open>useRef(null)\<close>, \<open>useState(false)\<close>. The host hands out handles that are
  positive integers, so its counter starts at 1.
\<close>

definition init :: "('a, 'e) action \<Rightarrow> time \<Rightarrow> ('a, 'e) controller" where
  "init cb t0 =
     \<lparr>callbackRef = cb, timeoutRef = None, argsRef = None, isPending = False,
      now = t0, next_handle = 1, timers = [], calls = []\<rparr>"

subsection \<open>Host primitives\<close>

text \<open>\<open>clearTimeout(h)\<close> removes the entry with handle \<open>h\<close>; nothing happens if there is none.\<close>

definition clearTimeout :: "handle \<Rightarrow> ('a, 'e) controller \<Rightarrow> ('a, 'e) controller" where
  "clearTimeout h s = s\<lparr>timers := filter (\<lambda>t. fst t \<noteq> h) (timers s)\<rparr>"

text \<open>\<open>setTimeout(f, delay)\<close> queues the callback for \<open>now + delay\<close> and returns a fresh handle.\<close>

definition setTimeout :: "nat \<Rightarrow> ('a, 'e) controller \<Rightarrow> handle \<times> ('a, 'e) controller" where
  "setTimeout delay s =
     (next_handle s,
      s\<lparr>timers := timers s @ [(next_handle s, now s + delay)],
        next_handle := Suc (next_handle s)\<rparr>)"

text \<open>The test \<open>if (timeoutRef.current)\<close>: \<open>undefined\<close> and the number 0 are falsy.\<close>

definition truthy :: "handle option \<Rightarrow> bool" where
  "truthy r = (case r of None \<Rightarrow> False | Some h \<Rightarrow> h \<noteq> 0)"

subsection \<open>The operations of the hook\<close>

text \<open>One evaluation of \<open>callbackRef.current(...args)\<close>: the call is recorded, its outcome returned.\<close>

definition invoke :: "'a list \<Rightarrow> ('a, 'e) controller \<Rightarrow> 'e option \<times> ('a, 'e) controller" where
  "invoke args s =
     (callbackRef s args, s\<lparr>calls := calls s @ [(now s, callbackRef s, args)]\<rparr>)"

text \<open>The effect of lines 111 to 113: the reference follows the callback of the latest render.\<close>

definition rebind :: "('a, 'e) action \<Rightarrow> ('a, 'e) controller \<Rightarrow> ('a, 'e) controller" where
  "rebind cb s = s\<lparr>callbackRef := cb\<rparr>"

text \<open>\<open>cancel\<close>, lines 115 to 122.\<close>

definition cancel :: "('a, 'e) controller \<Rightarrow> ('a, 'e) controller" where
  "cancel s =
     (case timeoutRef s of
        None \<Rightarrow> s
      | Some h \<Rightarrow>
          if h \<noteq> 0
          then (clearTimeout h s)\<lparr>timeoutRef := None, argsRef := None, isPending := False\<rparr>
          else s)"

text \<open>
  \<open>flush\<close>, lines 124 to 132. When the action throws, the statements after the call are
  skipped and the exception leaves \<open>flush\<close>: the state is the one reached at the call.
\<close>

definition flush :: "('a, 'e) controller \<Rightarrow> 'e option \<times> ('a, 'e) controller" where
  "flush s =
     (case timeoutRef s of
        None \<Rightarrow> (None, s)
      | Some h \<Rightarrow>
          (case argsRef s of
             None \<Rightarrow> (None, s)
           | Some args \<Rightarrow>
               if h \<noteq> 0
               then (case invoke args ((clearTimeout h s)\<lparr>timeoutRef := None\<rparr>) of
                       (Some e, s') \<Rightarrow> (Some e, s')
                     | (None, s') \<Rightarrow> (None, s'\<lparr>argsRef := None, isPending := False\<rparr>))
               else (None, s)))"

text \<open>
  The closure given to \<open>setTimeout\<close>, lines 144 to 151. An array is truthy even when
  empty, so \<open>if (argsRef.current)\<close> tests for \<open>null\<close> only.
\<close>

definition timer_callback :: "('a, 'e) controller \<Rightarrow> 'e option \<times> ('a, 'e) controller" where
  "timer_callback s =
     (case argsRef s of
        None \<Rightarrow> (None, s\<lparr>timeoutRef := None, isPending := False\<rparr>)
      | Some args \<Rightarrow>
          (case invoke args s of
             (Some e, s') \<Rightarrow> (Some e, s')
           | (None, s') \<Rightarrow>
               (None, s'\<lparr>argsRef := None, timeoutRef := None, isPending := False\<rparr>)))"

text \<open>\<open>debounced\<close>, lines 134 to 154; \<open>delay\<close> is the hook's second parameter.\<close>

definition debounced :: "nat \<Rightarrow> 'a list \<Rightarrow> ('a, 'e) controller \<Rightarrow> ('a, 'e) controller" where
  "debounced delay args s =
     (let s1 = s\<lparr>argsRef := Some args\<rparr>;
          s2 = (case timeoutRef s1 of
                  None \<Rightarrow> s1
                | Some h \<Rightarrow> if h \<noteq> 0 then clearTimeout h s1 else s1);
          s3 = s2\<lparr>isPending := True\<rparr>;
          (h', s4) = setTimeout delay s3
      in s4\<lparr>timeoutRef := Some h'\<rparr>)"

subsection \<open>The host running a timer\<close>

text \<open>
  The host runs a scheduled callback once, at or after its due time, and never after it
  was cleared. \<open>fire h\<close> is that event for the entry with handle \<open>h\<close>; where no such
  entry is due, nothing happens.
\<close>

definition due_now :: "handle \<Rightarrow> ('a, 'e) controller \<Rightarrow> bool" where
  "due_now h s = (\<exists>t \<in> set (timers s). fst t = h \<and> snd t \<le> now s)"

definition fire :: "handle \<Rightarrow> ('a, 'e) controller \<Rightarrow> 'e option \<times> ('a, 'e) controller" where
  "fire h s =
     (if due_now h s
      then timer_callback (s\<lparr>timers := filter (\<lambda>t. fst t \<noteq> h) (timers s)\<rparr>)
      else (None, s))"

text \<open>Everything that can happen to one controller, and a run of such events.\<close>

datatype ('a, 'e) event =
    Trigger "'a list"
  | Cancel
  | Flush
  | Fire handle
  | Advance nat
  | Rebind "('a, 'e) action"

fun step :: "nat \<Rightarrow> ('a, 'e) event \<Rightarrow> ('a, 'e) controller \<Rightarrow> 'e option \<times> ('a, 'e) controller" where
  "step delay (Trigger args) s = (None, debounced delay args s)"
| "step delay Cancel s = (None, cancel s)"
| "step delay Flush s = flush s"
| "step delay (Fire h) s = fire h s"
| "step delay (Advance dt) s = (None, s\<lparr>now := now s + dt\<rparr>)"
| "step delay (Rebind cb) s = (None, rebind cb s)"

text \<open>\<open>run\<close> returns the outcome of every event (what it threw, if anything) and the final state.\<close>

fun run :: "nat \<Rightarrow> ('a, 'e) event list \<Rightarrow> ('a, 'e) controller \<Rightarrow> 'e option list \<times> ('a, 'e) controller" where
  "run delay [] s = ([], s)"
| "run delay (ev # evs) s =
     (case step delay ev s of
        (r, s') \<Rightarrow> (case run delay evs s' of (rs, s'') \<Rightarrow> (r # rs, s'')))"

subsection \<open>The host's timer loop\<close>

text \<open>
  \<open>earliest\<close> picks the entry the host runs next: the smallest due time, and among
  equal due times the one scheduled first.
\<close>

fun earliest :: "(handle \<times> time) list \<Rightarrow> (handle \<times> time) option" where
  "earliest [] = None"
| "earliest (t # ts) =
     (case earliest ts of
        None \<Rightarrow> Some t
      | Some u \<Rightarrow> if snd u < snd t then Some u else Some t)"

definition next_due :: "time \<Rightarrow> (handle \<times> time) list \<Rightarrow> (handle \<times> time) option" where
  "next_due T ts = earliest (filter (\<lambda>t. snd t \<le> T) ts)"

lemma earliest_mem: "earliest ts = Some t \<Longrightarrow> t \<in> set ts"
  by (induction ts arbitrary: t) (auto split: option.splits if_splits)

lemma next_due_mem: "next_due T ts = Some t \<Longrightarrow> t \<in> set ts \<and> snd t \<le> T"
  using earliest_mem [of "filter (\<lambda>t. snd t \<le> T) ts" t] by (simp add: next_due_def)

lemma timers_timer_callback: "timers (snd (timer_callback s)) = timers s"
  by (simp add: timer_callback_def invoke_def split: option.splits)

lemma fire_shrinks:
  assumes "(h, d) \<in> set (timers s)" and "d \<le> now s"
  shows "length (timers (snd (fire h s))) < length (timers s)"
proof -
  have due: "due_now h s"
    using assms by (force simp: due_now_def)
  have "length (filter (\<lambda>t. fst t \<noteq> h) (timers s)) < length (timers s)"
    using assms(1) by (intro length_filter_less [of "(h, d)"]) simp_all
  with due show ?thesis
    by (simp add: fire_def timers_timer_callback)
qed

text \<open>
  \<open>elapse T\<close> lets the clock reach \<open>T\<close> with the host idle in between: every entry due
  by then runs, in the host's order, at its due time (or at once if it is overdue). An
  exception leaving a timer callback is reported by the host and does not stop the loop.
\<close>

function elapse :: "time \<Rightarrow> ('a, 'e) controller \<Rightarrow> ('a, 'e) controller" where
  "elapse T s =
     (case next_due T (timers s) of
        None \<Rightarrow> s\<lparr>now := max (now s) T\<rparr>
      | Some (h, d) \<Rightarrow> elapse T (snd (fire h (s\<lparr>now := max (now s) d\<rparr>))))"
  by pat_completeness auto
termination
proof (relation "measure (\<lambda>(T, s). length (timers s))")
  show "wf (measure (\<lambda>(T, s :: ('a, 'e) controller). length (timers s)))"
    by simp
next
  fix T :: time and s :: "('a, 'e) controller" and x2 h d
  assume "next_due T (timers s) = Some x2" and "(h, d) = x2"
  then have "(h, d) \<in> set (timers s)"
    using next_due_mem by metis
  then have "length (timers (snd (fire h (s\<lparr>now := max (now s) d\<rparr>)))) < length (timers s)"
    using fire_shrinks [of h d "s\<lparr>now := max (now s) d\<rparr>"] by simp
  then show "((T, snd (fire h (s\<lparr>now := max (now s) d\<rparr>))), (T, s))
               \<in> measure (\<lambda>(T, s). length (timers s))"
    by simp
qed

text \<open>
  A burst of calls to \<open>debounced\<close>: each element is the time that passes before the
  call, and the call's arguments.
\<close>

fun run_burst :: "nat \<Rightarrow> (nat \<times> 'a list) list \<Rightarrow> ('a, 'e) controller \<Rightarrow> ('a, 'e) controller" where
  "run_burst delay [] s = s"
| "run_burst delay ((gap, args) # rest) s =
     run_burst delay rest (debounced delay args (elapse (now s + gap) s))"

subsection \<open>Predicates on states and events\<close>

text \<open>The specification's Idle state: the host has no execution scheduled.\<close>

definition idle :: "('a, 'e) controller \<Rightarrow> bool" where
  "idle s = (timers s = [])"

text \<open>
  What the host and the hook keep between them whatever the action does: only the timer
  whose handle is in \<open>timeoutRef\<close> can be scheduled, handles are positive, and while
  a handle is held the flag is set and arguments are stored.
\<close>

definition host_ok :: "('a, 'e) controller \<Rightarrow> bool" where
  "host_ok s =
     (0 < next_handle s \<and>
      (case timeoutRef s of
         None \<Rightarrow> timers s = []
       | Some h \<Rightarrow>
           0 < h \<and> isPending s \<and> argsRef s \<noteq> None \<and>
           (map fst (timers s) = [] \<or> map fst (timers s) = [h])))"

text \<open>The two states of the specification's state machine, as the fields show them.\<close>

definition settled :: "('a, 'e) controller \<Rightarrow> bool" where
  "settled s =
     (0 < next_handle s \<and>
      (case timeoutRef s of
         None \<Rightarrow> timers s = [] \<and> \<not> isPending s
       | Some h \<Rightarrow>
           0 < h \<and> isPending s \<and> map fst (timers s) = [h] \<and> argsRef s \<noteq> None))"

fun is_trigger :: "('a, 'e) event \<Rightarrow> bool" where
  "is_trigger (Trigger args) = True"
| "is_trigger ev = False"

fun is_fire :: "('a, 'e) event \<Rightarrow> bool" where
  "is_fire (Fire h) = True"
| "is_fire ev = False"

text \<open>Two actions to run the model on: one that always returns, one that always throws.\<close>

definition returns :: "('a, 'e) action" where
  "returns args = None"

definition throws :: "'e \<Rightarrow> ('a, 'e) action" where
  "throws e args = Some e"

text \<open>
  A trigger has armed the controller: its handle is held, and the only scheduled timer is
  that one, due one \<open>delay\<close> after the current instant.
\<close>

definition armed :: "nat \<Rightarrow> ('a, 'e) controller \<Rightarrow> bool" where
  "armed delay s =
     (0 < next_handle s \<and>
      (case timeoutRef s of
         None \<Rightarrow> False
       | Some h \<Rightarrow> h \<noteq> 0 \<and> timers s = [(h, now s + delay)]))"

section \<open>Toast notifications (src/contexts/ToastContext.tsx)\<close>

text \<open>
  The provider's state is the list \<open>toasts\<close>. \<open>notify\<close> never keeps the handle that
  \<open>setTimeout\<close> returns, so the host's side is the list \<open>dismissals\<close> of scheduled
  calls \<open>dismiss(id)\<close>, each with its due time, and the host picks an entry by its
  position. Durations are whole numbers of milliseconds. The identifier that the source
  builds from \<open>Date.now()\<close> and \<open>Math.random()\<close> is an argument of the model.
\<close>

datatype ToastType = Success | Error | Warning | Info

datatype ToastPosition =
  TopRight | TopLeft | BottomRight | BottomLeft | TopCenter | BottomCenter


















section \<open>Properties of the debounced invocation controller\<close>

subsection \<open>Invariants of every run\<close>

lemmas op_defs =
  debounced_def cancel_def flush_def fire_def timer_callback_def invoke_def
  clearTimeout_def setTimeout_def rebind_def due_now_def Let_def

lemma filter_single_handle:
  "map fst ts = [h] \<Longrightarrow> filter (\<lambda>t. fst t \<noteq> h) ts = []"
  by (cases ts) auto

lemma init_settled: "settled (init cb t0)"
  by (simp add: settled_def init_def)

lemma settled_host_ok: "settled s \<Longrightarrow> host_ok s"
  by (auto simp: settled_def host_ok_def split: option.splits)

lemma step_host_ok: "host_ok s \<Longrightarrow> host_ok (snd (step delay ev s))"
proof (cases ev)
  case (Trigger args)
  assume "host_ok s"
  then show ?thesis
    unfolding Trigger
    by (auto simp: host_ok_def op_defs filter_single_handle split: option.splits)
next
  case Cancel
  assume "host_ok s"
  then show ?thesis
    unfolding Cancel
    by (auto simp: host_ok_def op_defs filter_single_handle split: option.splits)
next
  case Flush
  assume "host_ok s"
  then show ?thesis
    unfolding Flush
    by (auto simp: host_ok_def op_defs filter_single_handle split: option.splits)
next
  case (Fire h)
  assume "host_ok s"
  then show ?thesis
    unfolding Fire
    by (auto simp: host_ok_def op_defs filter_single_handle split: option.splits)
next
  case (Advance dt)
  assume "host_ok s"
  then show ?thesis
    unfolding Advance by (auto simp: host_ok_def split: option.splits)
next
  case (Rebind g)
  assume "host_ok s"
  then show ?thesis
    unfolding Rebind by (auto simp: host_ok_def rebind_def split: option.splits)
qed

lemma step_settled:
  assumes "settled s" and "fst (step delay ev s) = None"
  shows "settled (snd (step delay ev s))"
  using assms
  by (cases ev)
     (auto simp: settled_def op_defs filter_single_handle split: option.splits if_splits)

lemma snd_run_Cons:
  "snd (run delay (ev # evs) s) = snd (run delay evs (snd (step delay ev s)))"
  by (simp split: prod.splits)

lemma fst_run_Cons:
  "fst (run delay (ev # evs) s)
     = fst (step delay ev s) # fst (run delay evs (snd (step delay ev s)))"
  by (simp split: prod.splits)

lemma run_host_ok: "host_ok s \<Longrightarrow> host_ok (snd (run delay evs s))"
proof (induction evs arbitrary: s)
  case Nil
  then show ?case by simp
next
  case (Cons ev evs)
  from Cons.prems have "host_ok (snd (step delay ev s))"
    by (rule step_host_ok)
  then have "host_ok (snd (run delay evs (snd (step delay ev s))))"
    by (rule Cons.IH)
  then show ?case
    by (simp only: snd_run_Cons)
qed

lemma run_settled:
  "settled s \<Longrightarrow> \<forall>r \<in> set (fst (run delay evs s)). r = None \<Longrightarrow> settled (snd (run delay evs s))"
proof (induction evs arbitrary: s)
  case Nil
  then show ?case by simp
next
  case (Cons ev evs)
  obtain r s' where st: "step delay ev s = (r, s')"
    by (cases "step delay ev s")
  obtain rs s'' where rn: "run delay evs s' = (rs, s'')"
    by (cases "run delay evs s'")
  from Cons.prems(2) st rn have r: "r = None" and rs: "\<forall>r \<in> set rs. r = None"
    by simp_all
  from step_settled [of s delay ev] Cons.prems(1) st r have "settled s'"
    by simp
  with Cons.IH [of s'] rn rs have "settled s''"
    by simp
  with st rn show ?case by simp
qed

lemma reachable_host_ok: "run delay evs (init cb t0) = (rs, s) \<Longrightarrow> host_ok s"
  using run_host_ok [OF settled_host_ok [OF init_settled], of delay evs cb t0] by simp

text \<open>With no timer scheduled and no handle held, only a new trigger can lead to a call.\<close>

lemma step_quiet:
  assumes "timers s = []" and "timeoutRef s = None" and "\<not> is_trigger ev"
  shows "timers (snd (step delay ev s)) = [] \<and> timeoutRef (snd (step delay ev s)) = None \<and>
         calls (snd (step delay ev s)) = calls s \<and> argsRef (snd (step delay ev s)) = argsRef s \<and>
         isPending (snd (step delay ev s)) = isPending s"
  using assms by (cases ev) (simp_all add: op_defs)

lemma run_quiet:
  "timers s = [] \<Longrightarrow> timeoutRef s = None \<Longrightarrow> \<forall>ev \<in> set evs. \<not> is_trigger ev \<Longrightarrow>
   calls (snd (run delay evs s)) = calls s"
proof (induction evs arbitrary: s)
  case Nil
  then show ?case by simp
next
  case (Cons ev evs)
  from Cons.prems have q: "timers (snd (step delay ev s)) = []"
    "timeoutRef (snd (step delay ev s)) = None" "calls (snd (step delay ev s)) = calls s"
    using step_quiet [of s ev delay] by simp_all
  from Cons.IH [OF q(1) q(2)] Cons.prems(3) q(3) show ?case
    by (simp add: snd_run_Cons del: run.simps)
qed


lemma trigger_shape:
  assumes "host_ok s"
  shows "timers (debounced delay args s) = [(next_handle s, now s + delay)]"
    and "timeoutRef (debounced delay args s) = Some (next_handle s)"
    and "argsRef (debounced delay args s) = Some args"
    and "isPending (debounced delay args s)"
    and "calls (debounced delay args s) = calls s"
    and "callbackRef (debounced delay args s) = callbackRef s"
    and "now (debounced delay args s) = now s"
    and "0 < next_handle s"
  using assms
  by (auto simp: host_ok_def op_defs filter_single_handle split: option.splits)

lemma host_ok_one_timer:
  "host_ok s \<Longrightarrow> length (timers s) \<le> 1 \<and> (timers s \<noteq> [] \<longrightarrow> isPending s)"
proof -
  assume ok: "host_ok s"
  show ?thesis
  proof (cases "timeoutRef s")
    case None
    with ok show ?thesis by (simp add: host_ok_def)
  next
    case (Some k)
    with ok have p: "isPending s" and "map fst (timers s) = [] \<or> map fst (timers s) = [k]"
      by (simp_all add: host_ok_def)
    then have "length (map fst (timers s)) \<le> 1"
      by auto
    with p show ?thesis by simp
  qed
qed

lemma settled_flag:
  "settled s \<Longrightarrow> length (timers s) \<le> 1 \<and> (isPending s \<longleftrightarrow> timers s \<noteq> [])"
  by (auto simp: settled_def split: option.splits)

lemma settled_no_handle:
  "settled s \<Longrightarrow> timeoutRef s = None \<Longrightarrow> \<not> isPending s \<and> timers s = []"
  by (simp add: settled_def)

text \<open>
  Unless a timer callback throws, a handle is held only while its timer is scheduled.
\<close>

lemma step_no_stale_handle:
  assumes "host_ok s" and "timers s = [] \<longrightarrow> timeoutRef s = None"
    and "is_fire ev \<longrightarrow> fst (step delay ev s) = None"
  shows "timers (snd (step delay ev s)) = [] \<longrightarrow> timeoutRef (snd (step delay ev s)) = None"
proof (cases ev)
  case (Trigger args)
  show ?thesis
    unfolding Trigger by (auto simp: op_defs split: option.splits)
next
  case Cancel
  with assms(1,2) show ?thesis
    by (auto simp: host_ok_def op_defs split: option.splits)
next
  case Flush
  with assms(1,2) show ?thesis
    by (auto simp: host_ok_def op_defs split: option.splits)
next
  case (Fire h)
  with assms show ?thesis
    by (auto simp: host_ok_def op_defs split: option.splits if_splits)
next
  case (Advance dt)
  with assms(2) show ?thesis by simp
next
  case (Rebind g)
  with assms(2) show ?thesis by (simp add: rebind_def)
qed

lemma run_no_stale_handle:
  "host_ok s \<Longrightarrow> timers s = [] \<longrightarrow> timeoutRef s = None \<Longrightarrow>
   \<forall>p \<in> set (zip evs (fst (run delay evs s))). is_fire (fst p) \<longrightarrow> snd p = None \<Longrightarrow>
   timers (snd (run delay evs s)) = [] \<longrightarrow> timeoutRef (snd (run delay evs s)) = None"
proof (induction evs arbitrary: s)
  case Nil
  then show ?case by simp
next
  case (Cons ev evs)
  let ?s' = "snd (step delay ev s)"
  from Cons.prems(3) have hd: "is_fire ev \<longrightarrow> fst (step delay ev s) = None"
    and tl: "\<forall>p \<in> set (zip evs (fst (run delay evs ?s'))). is_fire (fst p) \<longrightarrow> snd p = None"
    by (simp_all add: fst_run_Cons del: run.simps)
  have ok: "host_ok ?s'"
    using Cons.prems(1) by (rule step_host_ok)
  have "timers ?s' = [] \<longrightarrow> timeoutRef ?s' = None"
    using step_no_stale_handle [OF Cons.prems(1,2) hd] .
  from Cons.IH [OF ok this tl] show ?case
    by (simp only: snd_run_Cons)
qed

text \<open>In a reachable state the two operations change nothing exactly when no handle is held.\<close>

lemma noop_iff_no_handle:
  assumes "host_ok s"
  shows "(cancel s = s \<longleftrightarrow> timeoutRef s = None) \<and>
         (flush s = (None, s) \<longleftrightarrow> timeoutRef s = None)"
proof (cases "timeoutRef s")
  case None
  then show ?thesis
    by (simp add: cancel_def flush_def)
next
  case (Some k)
  with assms obtain args where k: "k \<noteq> 0" and a: "argsRef s = Some args"
    by (auto simp: host_ok_def)
  have "timeoutRef (cancel s) = None"
    using Some k by (simp add: cancel_def clearTimeout_def)
  with Some have c: "cancel s \<noteq> s"
    by auto
  have "timeoutRef (snd (flush s)) = None"
    using Some k a by (simp add: flush_def invoke_def clearTimeout_def split: option.splits)
  with Some have "snd (flush s) \<noteq> s"
    by auto
  then have f: "flush s \<noteq> (None, s)"
    by auto
  from c f Some show ?thesis by simp
qed

lemma pending_after_trigger:
  assumes "host_ok s0" and "run delay [Trigger args, Advance dt] s0 = (rs1, s)"
  shows "timers s = [(next_handle s0, now s0 + delay)]"
    and "timeoutRef s = Some (next_handle s0)"
    and "argsRef s = Some args"
    and "isPending s"
    and "calls s = calls s0"
    and "callbackRef s = callbackRef s0"
    and "now s = now s0 + dt"
    and "0 < next_handle s0"
proof -
  from assms(2) have s: "s = (debounced delay args s0)\<lparr>now := now (debounced delay args s0) + dt\<rparr>"
    by simp
  show "timers s = [(next_handle s0, now s0 + delay)]" "timeoutRef s = Some (next_handle s0)"
    "argsRef s = Some args" "isPending s" "calls s = calls s0" "callbackRef s = callbackRef s0"
    "now s = now s0 + dt" "0 < next_handle s0"
    using trigger_shape [OF assms(1)] by (simp_all add: s)
qed

subsection \<open>A burst of triggers\<close>

lemma elapse_nothing_due:
  assumes "\<forall>t \<in> set (timers s). T < snd t"
  shows "elapse T s = s\<lparr>now := max (now s) T\<rparr>"
proof -
  have "filter (\<lambda>t. snd t \<le> T) (timers s) = []"
    using assms by (auto simp: filter_empty_conv)
  then have "next_due T (timers s) = None"
    by (simp add: next_due_def)
  then show ?thesis
    by (subst elapse.simps) simp
qed

lemma elapse_single:
  assumes "timers s = [(h, d)]" and "d \<le> T" and "argsRef s = Some args"
  shows "calls (elapse T s) = calls s @ [(max (now s) d, callbackRef s, args)]"
    and "timers (elapse T s) = []"
proof -
  let ?s1 = "s\<lparr>now := max (now s) d\<rparr>"
  let ?s2 = "snd (fire h ?s1)"
  have nd: "next_due T (timers s) = Some (h, d)"
    using assms(1,2) by (simp add: next_due_def)
  have due: "due_now h ?s1"
    using assms(1) by (simp add: due_now_def)
  have t2: "timers ?s2 = []"
    using assms(1) due by (simp add: fire_def timers_timer_callback)
  have c2: "calls ?s2 = calls s @ [(max (now s) d, callbackRef s, args)]"
    using assms(3) due
    by (auto simp: fire_def timer_callback_def invoke_def split: option.splits)
  have e: "elapse T s = elapse T ?s2"
    using nd by (subst elapse.simps) simp
  have "elapse T ?s2 = ?s2\<lparr>now := max (now ?s2) T\<rparr>"
    by (rule elapse_nothing_due) (simp add: t2)
  with e have "elapse T s = ?s2\<lparr>now := max (now ?s2) T\<rparr>"
    by simp
  then show "calls (elapse T s) = calls s @ [(max (now s) d, callbackRef s, args)]"
    and "timers (elapse T s) = []"
    using c2 t2 by simp_all
qed

lemma idle_gap_trigger:
  assumes "timers s = []" and "0 < next_handle s"
  shows "armed delay (debounced delay args (elapse (now s + gap) s))"
    and "calls (debounced delay args (elapse (now s + gap) s)) = calls s"
    and "callbackRef (debounced delay args (elapse (now s + gap) s)) = callbackRef s"
    and "argsRef (debounced delay args (elapse (now s + gap) s)) = Some args"
    and "now (debounced delay args (elapse (now s + gap) s)) = now s + gap"
proof -
  have e: "elapse (now s + gap) s = s\<lparr>now := now s + gap\<rparr>"
    using elapse_nothing_due [of s "now s + gap"] assms(1) by (simp add: max_def)
  show "armed delay (debounced delay args (elapse (now s + gap) s))"
    "calls (debounced delay args (elapse (now s + gap) s)) = calls s"
    "callbackRef (debounced delay args (elapse (now s + gap) s)) = callbackRef s"
    "argsRef (debounced delay args (elapse (now s + gap) s)) = Some args"
    "now (debounced delay args (elapse (now s + gap) s)) = now s + gap"
    unfolding e using assms
    by (auto simp: armed_def debounced_def clearTimeout_def setTimeout_def Let_def
        split: option.splits)
qed

lemma armed_gap_trigger:
  assumes "armed delay s" and "gap < delay"
  shows "armed delay (debounced delay args (elapse (now s + gap) s))"
    and "calls (debounced delay args (elapse (now s + gap) s)) = calls s"
    and "callbackRef (debounced delay args (elapse (now s + gap) s)) = callbackRef s"
    and "argsRef (debounced delay args (elapse (now s + gap) s)) = Some args"
    and "now (debounced delay args (elapse (now s + gap) s)) = now s + gap"
proof -
  from assms(1) obtain h where h: "timeoutRef s = Some h" "h \<noteq> 0"
    "timers s = [(h, now s + delay)]" "0 < next_handle s"
    by (auto simp: armed_def split: option.splits)
  have e: "elapse (now s + gap) s = s\<lparr>now := now s + gap\<rparr>"
    using elapse_nothing_due [of s "now s + gap"] h(3) assms(2) by (simp add: max_def)
  show "armed delay (debounced delay args (elapse (now s + gap) s))"
    "calls (debounced delay args (elapse (now s + gap) s)) = calls s"
    "callbackRef (debounced delay args (elapse (now s + gap) s)) = callbackRef s"
    "argsRef (debounced delay args (elapse (now s + gap) s)) = Some args"
    "now (debounced delay args (elapse (now s + gap) s)) = now s + gap"
    unfolding e using h
    by (auto simp: armed_def debounced_def clearTimeout_def setTimeout_def Let_def)
qed

lemma armed_burst:
  assumes "armed delay s" and "argsRef s = Some a" and "\<forall>p \<in> set burst. fst p < delay"
  shows "armed delay (run_burst delay burst s) \<and>
         calls (run_burst delay burst s) = calls s \<and>
         callbackRef (run_burst delay burst s) = callbackRef s \<and>
         argsRef (run_burst delay burst s) = Some (last (a # map snd burst)) \<and>
         now (run_burst delay burst s) = now s + sum_list (map fst burst)"
  using assms
proof (induction burst arbitrary: s a)
  case Nil
  then show ?case by simp
next
  case (Cons p burst)
  obtain gap args where p: "p = (gap, args)"
    by (cases p)
  let ?s' = "debounced delay args (elapse (now s + gap) s)"
  from Cons.prems(3) p have gap: "gap < delay" and rest: "\<forall>p \<in> set burst. fst p < delay"
    by simp_all
  note t = armed_gap_trigger [OF Cons.prems(1) gap, of args]
  from Cons.IH [OF t(1) t(4) rest] t(2,3,5) show ?case
    by (simp add: p)
qed

text \<open>
  Claim C1. Take a controller with no timer scheduled and a non-empty burst of triggers,
  each but the first less than \<open>delay\<close> after the one before. Nothing is called during
  the burst, nor at any time \<open>T\<close> before the last trigger's instant plus \<open>delay\<close>. Once the
  clock has reached that instant (\<open>T'\<close>), exactly one call has been added: it was made at
  that instant, with the arguments of the last trigger, and no timer is left. The
  arguments of the earlier triggers appear in no call.
\<close>

theorem burst_single_execution:
  assumes "timers s = []" and "0 < next_handle s"
    and "burst \<noteq> []" and "\<forall>p \<in> set (tl burst). fst p < delay"
  shows "calls (run_burst delay burst s) = calls s \<and>
         (T < now s + sum_list (map fst burst) + delay \<longrightarrow>
            calls (elapse T (run_burst delay burst s)) = calls s) \<and>
         (now s + sum_list (map fst burst) + delay \<le> T' \<longrightarrow>
            calls (elapse T' (run_burst delay burst s))
              = calls s @ [(now s + sum_list (map fst burst) + delay, callbackRef s, snd (last burst))] \<and>
            timers (elapse T' (run_burst delay burst s)) = [])"
proof -
  obtain gap args rest where b: "burst = (gap, args) # rest"
    using assms(3) by (cases burst) auto
  let ?s1 = "debounced delay args (elapse (now s + gap) s)"
  let ?f = "run_burst delay burst s"
  note t = idle_gap_trigger [OF assms(1,2), of delay args gap]
  from assms(4) b have rest: "\<forall>p \<in> set rest. fst p < delay"
    by simp
  have f: "?f = run_burst delay rest ?s1"
    by (simp add: b)
  have last_eq: "last (args # map snd rest) = snd (last burst)"
    by (simp add: b last_map)
  from armed_burst [OF t(1) t(4) rest] t(2,3,5) f last_eq
  have arm: "armed delay ?f" and c: "calls ?f = calls s" and cb: "callbackRef ?f = callbackRef s"
    and a: "argsRef ?f = Some (snd (last burst))"
    and n: "now ?f = now s + sum_list (map fst burst)"
    by (simp_all add: b)
  from arm obtain h where h: "timers ?f = [(h, now ?f + delay)]"
    by (auto simp: armed_def split: option.splits)
  have early: "calls (elapse T ?f) = calls s" if "T < now s + sum_list (map fst burst) + delay"
  proof -
    have "elapse T ?f = ?f\<lparr>now := max (now ?f) T\<rparr>"
      using that h n by (intro elapse_nothing_due) simp
    then show ?thesis using c by simp
  qed
  have late: "calls (elapse T' ?f)
                = calls s @ [(now s + sum_list (map fst burst) + delay, callbackRef s, snd (last burst))]"
    "timers (elapse T' ?f) = []"
    if "now s + sum_list (map fst burst) + delay \<le> T'"
    using elapse_single [OF h _ a, of T'] that n c cb by (simp_all add: max_def)
  from c early late show ?thesis by blast
qed

text \<open>
  Claim C1, at the specification's scenario: delay 300, triggers \<open>a\<close>, \<open>b\<close>, \<open>c\<close>
  at times 0, 100 and 150; nothing has run by 449, and at 450 the one call has \<open>c\<close>.
\<close>

theorem burst_single_execution_witness:
  "timers (init (returns :: (string, unit) action) 0) = [] \<and>
   0 < next_handle (init (returns :: (string, unit) action) 0) \<and>
   [(0, [''a'']), (100, [''b'']), (50, [''c''])] \<noteq> ([] :: (nat \<times> string list) list) \<and>
   (100::nat) < 300 \<and> (50::nat) < 300 \<and>
   calls (elapse 449 (run_burst 300 [(0, [''a'']), (100, [''b'']), (50, [''c''])]
                        (init (returns :: (string, unit) action) 0))) = [] \<and>
   calls (elapse 450 (run_burst 300 [(0, [''a'']), (100, [''b'']), (50, [''c''])]
                        (init (returns :: (string, unit) action) 0)))
     = [(450, returns, [''c''])]"
  using burst_single_execution
    [of "init (returns :: (string, unit) action) 0"
        "[(0, [''a'']), (100, [''b'']), (50, [''c''])]" 300 449 450]
  by (simp add: init_def)

subsection \<open>The pending flag\<close>

text \<open>
  Claim C2, refuted as stated: the action throws inside \<open>flush\<close>, the line that resets
  the flag is skipped, and the controller is left with the flag set and nothing scheduled.
\<close>

theorem pending_flag_counterexample:
  "\<not> (isPending (snd (run 300 [Trigger [0::nat], Flush] (init (throws ()) 0)))
        \<longleftrightarrow> timers (snd (run 300 [Trigger [0::nat], Flush] (init (throws ()) 0))) \<noteq> [])"
  by (simp add: init_def op_defs throws_def)

text \<open>
  Claim C2, amended, for an action that does not call back into the controller. In every
  state reached from a fresh controller, at most one timer is scheduled and a scheduled
  timer implies the flag; a trigger leaves exactly one timer with the flag set; a timer
  callback that returns leaves the flag clear and nothing scheduled; and nothing is
  scheduled after \<open>cancel\<close> or \<open>flush\<close>. If no event of the run threw, the flag is set
  exactly when a timer is scheduled, and it is clear after \<open>cancel\<close> and after a
  \<open>flush\<close> that returns.
\<close>

theorem pending_flag_invariant:
  assumes "run delay evs (init cb t0) = (rs, s)"
  shows "length (timers s) \<le> 1 \<and> (timers s \<noteq> [] \<longrightarrow> isPending s) \<and>
         isPending (debounced delay args s) \<and> length (timers (debounced delay args s)) = 1 \<and>
         (due_now h s \<and> fst (fire h s) = None \<longrightarrow>
            \<not> isPending (snd (fire h s)) \<and> timers (snd (fire h s)) = []) \<and>
         timers (cancel s) = [] \<and> timers (snd (flush s)) = [] \<and>
         ((\<forall>r \<in> set rs. r = None) \<longrightarrow>
            (isPending s \<longleftrightarrow> timers s \<noteq> []) \<and>
            \<not> isPending (cancel s) \<and>
            (fst (flush s) = None \<longrightarrow> \<not> isPending (snd (flush s))))"
proof -
  have ok: "host_ok s"
    using assms by (rule reachable_host_ok)
  have always: "length (timers s) \<le> 1 \<and> (timers s \<noteq> [] \<longrightarrow> isPending s)"
    using host_ok_one_timer [OF ok] .
  have t1: "isPending (debounced delay args s) \<and> length (timers (debounced delay args s)) = 1"
    using trigger_shape(1,4) [OF ok] by simp
  have fired: "\<not> isPending (snd (fire h s)) \<and> timers (snd (fire h s)) = []"
    if "due_now h s \<and> fst (fire h s) = None"
  proof -
    from that obtain d where d: "(h, d) \<in> set (timers s)"
      by (auto simp: due_now_def)
    with ok have "map fst (timers s) = [h]"
      by (cases "timeoutRef s") (auto simp: host_ok_def)
    then have e: "filter (\<lambda>t. fst t \<noteq> h) (timers s) = []"
      by (rule filter_single_handle)
    from that e show ?thesis
      by (auto simp: fire_def timer_callback_def invoke_def split: option.splits)
  qed
  have emptied: "timers (cancel s) = [] \<and> timers (snd (flush s)) = []"
    using ok
    by (cases "timeoutRef s")
       (auto simp: host_ok_def cancel_def flush_def invoke_def clearTimeout_def
          filter_single_handle split: option.splits)
  have quiet: "(isPending s \<longleftrightarrow> timers s \<noteq> []) \<and>
       \<not> isPending (cancel s) \<and>
       (fst (flush s) = None \<longrightarrow> \<not> isPending (snd (flush s)))"
    if no_throw: "\<forall>r \<in> set rs. r = None"
  proof -
    have st: "settled s"
      using run_settled [OF init_settled, of delay evs cb t0] assms no_throw by simp
    have cnl: "settled (cancel s)"
      using step_settled [OF st, of delay Cancel] by simp
    have fls: "fst (flush s) = None \<Longrightarrow> settled (snd (flush s))"
      using step_settled [OF st, of delay Flush] by simp
    have c1: "timeoutRef (cancel s) = None"
      using st by (auto simp: cancel_def settled_def split: option.splits)
    have f1: "timeoutRef (snd (flush s)) = None"
      using st by (auto simp: flush_def invoke_def settled_def split: option.splits)
    show ?thesis
      using settled_flag [OF st] settled_no_handle [OF cnl c1]
        settled_no_handle [OF fls f1] by blast
  qed
  from always t1 fired emptied quiet show ?thesis by blast
qed

text \<open>
  Claim C2, amended, on a run of five events none of which throws, with a due timer at
  the end.
\<close>

theorem pending_flag_invariant_witness:
  "run 300 [Trigger [1::nat], Advance 300, Fire 1, Trigger [2], Advance 300]
       (init (returns :: (nat, unit) action) 0)
     = ([None, None, None, None, None],
        snd (run 300 [Trigger [1::nat], Advance 300, Fire 1, Trigger [2], Advance 300]
               (init returns 0))) \<and>
   isPending (snd (run 300 [Trigger [1::nat], Advance 300, Fire 1, Trigger [2], Advance 300]
                    (init (returns :: (nat, unit) action) 0))) \<and>
   timers (snd (run 300 [Trigger [1::nat], Advance 300, Fire 1, Trigger [2], Advance 300]
                 (init (returns :: (nat, unit) action) 0))) = [(2, 600)] \<and>
   due_now 2 (snd (run 300 [Trigger [1::nat], Advance 300, Fire 1, Trigger [2], Advance 300]
                     (init (returns :: (nat, unit) action) 0))) \<and>
   fst (fire 2 (snd (run 300 [Trigger [1::nat], Advance 300, Fire 1, Trigger [2], Advance 300]
                       (init (returns :: (nat, unit) action) 0)))) = None \<and>
   \<not> isPending (snd (fire 2
       (snd (run 300 [Trigger [1::nat], Advance 300, Fire 1, Trigger [2], Advance 300]
               (init (returns :: (nat, unit) action) 0))))) \<and>
   fst (flush (snd (run 300 [Trigger [1::nat], Advance 300, Fire 1, Trigger [2], Advance 300]
                      (init (returns :: (nat, unit) action) 0)))) = None \<and>
   \<not> isPending (snd (flush
       (snd (run 300 [Trigger [1::nat], Advance 300, Fire 1, Trigger [2], Advance 300]
               (init (returns :: (nat, unit) action) 0))))) \<and>
   \<not> isPending (cancel
       (snd (run 300 [Trigger [1::nat], Advance 300, Fire 1, Trigger [2], Advance 300]
               (init (returns :: (nat, unit) action) 0))))"
  using pending_flag_invariant
    [of 300 "[Trigger [1::nat], Advance 300, Fire 1, Trigger [2], Advance 300]"
        "returns :: (nat, unit) action" 0 "[None, None, None, None, None]"
        "snd (run 300 [Trigger [1::nat], Advance 300, Fire 1, Trigger [2], Advance 300]
                (init returns 0))"
        "[3]" 2]
  by (simp add: init_def op_defs returns_def)

subsection \<open>Flush and cancel while pending\<close>

text \<open>
  Claim C3, refuted as stated: with an action that throws, \<open>flush\<close> leaves the stored
  arguments in place and the flag set.
\<close>

theorem flush_pending_counterexample:
  "argsRef (snd (flush (debounced 300 [7::nat] (init (throws ()) 0)))) = Some [7] \<and>
   isPending (snd (flush (debounced 300 [7::nat] (init (throws ()) 0))))"
  by (simp add: init_def op_defs throws_def)

text \<open>
  Claim C3, amended. After a trigger in any reachable state, and any time \<open>dt\<close> later
  with the timer not yet run, \<open>flush\<close> makes exactly one call, inside \<open>flush\<close>, with the
  arguments of that trigger; the timer is gone, and no later event other than a new
  trigger adds a call. If that call returns, the arguments are discarded and the flag is
  clear.
\<close>

theorem flush_pending:
  assumes "run delay evs (init cb t0) = (rs, s0)"
    and "run delay [Trigger args, Advance dt] s0 = (rs1, s)"
    and "\<forall>ev \<in> set evs'. \<not> is_trigger ev"
  shows "calls (snd (flush s)) = calls s0 @ [(now s0 + dt, callbackRef s0, args)] \<and>
         timers (snd (flush s)) = [] \<and>
         calls (snd (run delay evs' (snd (flush s)))) = calls (snd (flush s)) \<and>
         (fst (flush s) = None \<longrightarrow> argsRef (snd (flush s)) = None \<and> \<not> isPending (snd (flush s)))"
proof -
  have ok: "host_ok s0"
    using assms(1) by (rule reachable_host_ok)
  note p = pending_after_trigger [OF ok assms(2)]
  have c: "calls (snd (flush s)) = calls s0 @ [(now s0 + dt, callbackRef s0, args)]"
    using p by (simp add: flush_def invoke_def clearTimeout_def split: option.splits)
  have t: "timers (snd (flush s)) = []" and h: "timeoutRef (snd (flush s)) = None"
    using p by (simp_all add: flush_def invoke_def clearTimeout_def split: option.splits)
  have q: "calls (snd (run delay evs' (snd (flush s)))) = calls (snd (flush s))"
    using run_quiet [OF t h assms(3)] .
  have n: "fst (flush s) = None \<longrightarrow> argsRef (snd (flush s)) = None \<and> \<not> isPending (snd (flush s))"
    using p by (simp add: flush_def invoke_def clearTimeout_def split: option.splits)
  from c t q n show ?thesis by blast
qed

text \<open>
  Claim C3, amended, at the specification's scenario: delay 300, trigger at 0, flush at 50.
\<close>

theorem flush_pending_witness:
  "run 300 [] (init returns 0) = ([], init (returns :: (nat, unit) action) 0) \<and>
   run 300 [Trigger [7::nat], Advance 50] (init returns 0)
     = ([None, None], (debounced 300 [7] (init (returns :: (nat, unit) action) 0))\<lparr>now := 50\<rparr>) \<and>
   \<not> is_trigger (Fire 1 :: (nat, unit) event) \<and>
   calls (snd (flush ((debounced 300 [7::nat] (init (returns :: (nat, unit) action) 0))\<lparr>now := 50\<rparr>)))
     = [(50, returns, [7])] \<and>
   calls (snd (run 300 [Advance 250, Fire 1]
            (snd (flush ((debounced 300 [7::nat] (init (returns :: (nat, unit) action) 0))\<lparr>now := 50\<rparr>)))))
     = [(50, returns, [7])] \<and>
   \<not> isPending (snd (flush ((debounced 300 [7::nat] (init (returns :: (nat, unit) action) 0))\<lparr>now := 50\<rparr>)))"
  using flush_pending
    [of 300 "[]" "returns :: (nat, unit) action" 0 "[]" "init returns 0" "[7::nat]" 50
        "[None, None]" "(debounced 300 [7] (init returns 0))\<lparr>now := 50\<rparr>" "[Advance 250, Fire 1]"]
  by (simp add: init_def op_defs returns_def)

text \<open>
  Claim C4. After a trigger in any reachable state, and any time \<open>dt\<close> later with the
  timer not yet run, \<open>cancel\<close> makes no call, removes the timer, discards the arguments
  and clears the flag; no later event other than a new trigger adds a call.
\<close>

theorem cancel_pending:
  assumes "run delay evs (init cb t0) = (rs, s0)"
    and "run delay [Trigger args, Advance dt] s0 = (rs1, s)"
    and "\<forall>ev \<in> set evs'. \<not> is_trigger ev"
  shows "calls (cancel s) = calls s0 \<and> timers (cancel s) = [] \<and> timeoutRef (cancel s) = None \<and>
         argsRef (cancel s) = None \<and> \<not> isPending (cancel s) \<and>
         calls (snd (run delay evs' (cancel s))) = calls s0"
proof -
  have ok: "host_ok s0"
    using assms(1) by (rule reachable_host_ok)
  note p = pending_after_trigger [OF ok assms(2)]
  have c: "calls (cancel s) = calls s0" and t: "timers (cancel s) = []"
    and h: "timeoutRef (cancel s) = None" and a: "argsRef (cancel s) = None"
    and f: "\<not> isPending (cancel s)"
    using p by (simp_all add: cancel_def clearTimeout_def)
  have "calls (snd (run delay evs' (cancel s))) = calls (cancel s)"
    using run_quiet [OF t h assms(3)] .
  with c t h a f show ?thesis by simp
qed

text \<open>
  Claim C4 on a fresh controller: trigger, cancel after 50, then the clock passes the delay.
\<close>

theorem cancel_pending_witness:
  "run 300 [] (init returns 0) = ([], init (returns :: (nat, unit) action) 0) \<and>
   run 300 [Trigger [7::nat], Advance 50] (init returns 0)
     = ([None, None], (debounced 300 [7] (init (returns :: (nat, unit) action) 0))\<lparr>now := 50\<rparr>) \<and>
   \<not> is_trigger (Fire 1 :: (nat, unit) event) \<and>
   calls (snd (run 300 [Advance 250, Fire 1, Flush]
            (cancel ((debounced 300 [7::nat] (init (returns :: (nat, unit) action) 0))\<lparr>now := 50\<rparr>))))
     = [] \<and>
   \<not> isPending (cancel ((debounced 300 [7::nat] (init (returns :: (nat, unit) action) 0))\<lparr>now := 50\<rparr>))"
  using cancel_pending
    [of 300 "[]" "returns :: (nat, unit) action" 0 "[]" "init returns 0" "[7::nat]" 50
        "[None, None]" "(debounced 300 [7] (init returns 0))\<lparr>now := 50\<rparr>"
        "[Advance 250, Fire 1, Flush]"]
  by (simp add: init_def op_defs returns_def)


subsection \<open>An action that throws\<close>

text \<open>
  Claim C5. When the bound action throws \<open>e\<close> on the stored arguments, \<open>flush\<close> (with
  a handle held) and the timer callback (when due) both end with that same \<open>e\<close>. The
  action was called exactly once, and no timer was added that could call it again.
\<close>

theorem action_error_propagates:
  assumes "argsRef s = Some args" and "callbackRef s args = Some e"
  shows "(truthy (timeoutRef s) \<longrightarrow>
            fst (flush s) = Some e \<and>
            calls (snd (flush s)) = calls s @ [(now s, callbackRef s, args)] \<and>
            set (timers (snd (flush s))) \<subseteq> set (timers s)) \<and>
         (due_now h s \<longrightarrow>
            fst (fire h s) = Some e \<and>
            calls (snd (fire h s)) = calls s @ [(now s, callbackRef s, args)] \<and>
            set (timers (snd (fire h s))) \<subseteq> set (timers s))"
proof (intro conjI impI)
  assume "truthy (timeoutRef s)"
  then obtain k where k: "timeoutRef s = Some k" "k \<noteq> 0"
    by (auto simp: truthy_def split: option.splits)
  with assms show "fst (flush s) = Some e"
    "calls (snd (flush s)) = calls s @ [(now s, callbackRef s, args)]"
    "set (timers (snd (flush s))) \<subseteq> set (timers s)"
    by (auto simp: flush_def invoke_def clearTimeout_def)
next
  assume "due_now h s"
  with assms show "fst (fire h s) = Some e"
    "calls (snd (fire h s)) = calls s @ [(now s, callbackRef s, args)]"
    "set (timers (snd (fire h s))) \<subseteq> set (timers s)"
    by (auto simp: fire_def timer_callback_def invoke_def)
qed

text \<open>
  Claim C5 with an action that throws the string \<open>boom\<close>.
\<close>

theorem action_error_propagates_witness:
  "argsRef ((debounced 0 [7::nat] (init (throws ''boom'') 0))) = Some [7] \<and>
   throws ''boom'' [7::nat] = Some ''boom'' \<and>
   truthy (timeoutRef (debounced 0 [7::nat] (init (throws ''boom'') 0))) \<and>
   due_now 1 (debounced 0 [7::nat] (init (throws ''boom'') 0)) \<and>
   fst (flush (debounced 0 [7::nat] (init (throws ''boom'') 0))) = Some ''boom'' \<and>
   fst (fire 1 (debounced 0 [7::nat] (init (throws ''boom'') 0))) = Some ''boom'' \<and>
   calls (snd (fire 1 (debounced 0 [7::nat] (init (throws ''boom'') 0))))
     = [(0, throws ''boom'', [7])]"
  using action_error_propagates
    [of "debounced 0 [7::nat] (init (throws ''boom'') 0)" "[7]" "''boom''" 1]
  by (simp add: init_def debounced_def setTimeout_def due_now_def truthy_def throws_def)

text \<open>
  Claim C6, refuted as stated: when the action throws inside the timer callback, the
  assignment \<open>timeoutRef.current = undefined\<close> that follows the call has not run, and
  the reference still holds the handle.
\<close>

theorem throw_keeps_handle_counterexample:
  "fst (run 300 [Trigger [7::nat], Advance 300, Fire 1] (init (throws ()) 0))
     = [None, None, Some ()] \<and>
   timeoutRef (snd (run 300 [Trigger [7::nat], Advance 300, Fire 1] (init (throws ()) 0)))
     = Some 1"
  by (simp add: init_def op_defs throws_def)

text \<open>
  Claim C6, amended. In \<open>flush\<close> and in the timer callback alike, the host no longer
  has the timer when the action is called, and what follows the call runs exactly when
  the action returns: then the arguments are discarded and the flag is cleared; when it
  throws, the arguments stay and the flag keeps its value. \<open>flush\<close> has cleared
  \<open>timeoutRef\<close> before the call; the timer callback clears it after the call only,
  so after a throw \<open>timeoutRef\<close> still holds the handle of the timer that ran.
\<close>

theorem throw_skips_cleanup:
  assumes "argsRef s = Some args"
  shows "(timeoutRef s = Some h \<and> h \<noteq> 0 \<longrightarrow>
            timeoutRef (snd (flush s)) = None \<and>
            h \<notin> fst ` set (timers (snd (flush s))) \<and>
            argsRef (snd (flush s)) = (if callbackRef s args = None then None else Some args) \<and>
            isPending (snd (flush s)) = (callbackRef s args \<noteq> None \<and> isPending s)) \<and>
         (due_now h s \<longrightarrow>
            timeoutRef (snd (fire h s))
              = (if callbackRef s args = None then None else timeoutRef s) \<and>
            h \<notin> fst ` set (timers (snd (fire h s))) \<and>
            argsRef (snd (fire h s)) = (if callbackRef s args = None then None else Some args) \<and>
            isPending (snd (fire h s)) = (callbackRef s args \<noteq> None \<and> isPending s))"
proof (intro conjI impI)
  assume g: "timeoutRef s = Some h \<and> h \<noteq> 0"
  let ?s1 = "(clearTimeout h s)\<lparr>timeoutRef := None,
               calls := calls s @ [(now s, callbackRef s, args)]\<rparr>"
  have f: "flush s = (case callbackRef s args of
                        Some e \<Rightarrow> (Some e, ?s1)
                      | None \<Rightarrow> (None, ?s1\<lparr>argsRef := None, isPending := False\<rparr>))"
    using assms g by (simp add: flush_def invoke_def clearTimeout_def split: option.splits)
  show "timeoutRef (snd (flush s)) = None"
    by (simp add: f split: option.splits)
  show "h \<notin> fst ` set (timers (snd (flush s)))"
    by (auto simp: f clearTimeout_def split: option.splits)
  show "argsRef (snd (flush s)) = (if callbackRef s args = None then None else Some args)"
    using assms by (auto simp: f clearTimeout_def split: option.splits)
  show "isPending (snd (flush s)) = (callbackRef s args \<noteq> None \<and> isPending s)"
    by (auto simp: f clearTimeout_def split: option.splits)
next
  assume d: "due_now h s"
  let ?s1 = "s\<lparr>timers := filter (\<lambda>t. fst t \<noteq> h) (timers s),
               calls := calls s @ [(now s, callbackRef s, args)]\<rparr>"
  have f: "fire h s = (case callbackRef s args of
                         Some e \<Rightarrow> (Some e, ?s1)
                       | None \<Rightarrow>
                           (None, ?s1\<lparr>argsRef := None, timeoutRef := None, isPending := False\<rparr>))"
    using assms d by (simp add: fire_def timer_callback_def invoke_def split: option.splits)
  show "timeoutRef (snd (fire h s)) = (if callbackRef s args = None then None else timeoutRef s)"
    by (auto simp: f split: option.splits)
  show "h \<notin> fst ` set (timers (snd (fire h s)))"
    by (auto simp: f split: option.splits)
  show "argsRef (snd (fire h s)) = (if callbackRef s args = None then None else Some args)"
    using assms by (auto simp: f split: option.splits)
  show "isPending (snd (fire h s)) = (callbackRef s args \<noteq> None \<and> isPending s)"
    by (auto simp: f split: option.splits)
qed

text \<open>
  Claim C6, amended, with an action that throws the string \<open>boom\<close>.
\<close>

theorem throw_skips_cleanup_witness:
  "argsRef ((debounced 0 [7::nat] (init (throws ''boom'') 0))) = Some [7] \<and>
   throws ''boom'' [7::nat] = Some ''boom'' \<and>
   timeoutRef (debounced 0 [7::nat] (init (throws ''boom'') 0)) = Some 1 \<and>
   due_now 1 (debounced 0 [7::nat] (init (throws ''boom'') 0)) \<and>
   timeoutRef (snd (flush (debounced 0 [7::nat] (init (throws ''boom'') 0)))) = None \<and>
   timeoutRef (snd (fire 1 (debounced 0 [7::nat] (init (throws ''boom'') 0)))) = Some 1 \<and>
   argsRef (snd (flush (debounced 0 [7::nat] (init (throws ''boom'') 0)))) = Some [7] \<and>
   argsRef (snd (fire 1 (debounced 0 [7::nat] (init (throws ''boom'') 0)))) = Some [7] \<and>
   isPending (snd (flush (debounced 0 [7::nat] (init (throws ''boom'') 0)))) \<and>
   isPending (snd (fire 1 (debounced 0 [7::nat] (init (throws ''boom'') 0))))"
  using throw_skips_cleanup
    [of "debounced 0 [7::nat] (init (throws ''boom'') 0)" "[7]" 1]
  by (simp add: init_def debounced_def setTimeout_def due_now_def throws_def)

subsection \<open>Rebinding, zero delay, idle calls\<close>

text \<open>
  Claim C7. Rebinding changes nothing but \<open>callbackRef\<close>: the scheduled timers and
  their due times, the clock, the handle, the arguments, the flag and the calls already
  made stay as they were. The next execution, by a due timer or by \<open>flush\<close>, calls the
  new action; an execution that ran before the rebinding called the action bound then.
\<close>

theorem rebind_next_execution:
  "timers (rebind g s) = timers s \<and> now (rebind g s) = now s \<and>
   timeoutRef (rebind g s) = timeoutRef s \<and> argsRef (rebind g s) = argsRef s \<and>
   isPending (rebind g s) = isPending s \<and> calls (rebind g s) = calls s \<and>
   (argsRef s = Some args \<and> due_now h s \<longrightarrow>
      calls (snd (fire h (rebind g s))) = calls s @ [(now s, g, args)] \<and>
      calls (rebind g (snd (fire h s))) = calls s @ [(now s, callbackRef s, args)]) \<and>
   (argsRef s = Some args \<and> truthy (timeoutRef s) \<longrightarrow>
      calls (snd (flush (rebind g s))) = calls s @ [(now s, g, args)] \<and>
      calls (rebind g (snd (flush s))) = calls s @ [(now s, callbackRef s, args)])"
proof -
  have same: "timers (rebind g s) = timers s" "now (rebind g s) = now s"
    "timeoutRef (rebind g s) = timeoutRef s" "argsRef (rebind g s) = argsRef s"
    "isPending (rebind g s) = isPending s" "calls (rebind g s) = calls s"
    by (simp_all add: rebind_def)
  have fired: "calls (snd (fire h (rebind g s))) = calls s @ [(now s, g, args)]"
    "calls (rebind g (snd (fire h s))) = calls s @ [(now s, callbackRef s, args)]"
    if "argsRef s = Some args" and "due_now h s"
    using that
    by (auto simp: rebind_def fire_def due_now_def timer_callback_def invoke_def
        split: option.splits)
  have flushed: "calls (snd (flush (rebind g s))) = calls s @ [(now s, g, args)]"
    "calls (rebind g (snd (flush s))) = calls s @ [(now s, callbackRef s, args)]"
    if "argsRef s = Some args" and "truthy (timeoutRef s)"
    using that
    by (auto simp: rebind_def flush_def truthy_def invoke_def clearTimeout_def
        split: option.splits)
  from same fired flushed show ?thesis by blast
qed

text \<open>
  Claim C7 on a pending controller whose action is rebound from one that returns to one
  that throws.
\<close>

theorem rebind_next_execution_witness:
  "argsRef (debounced 0 [7::nat] (init (returns :: (nat, unit) action) 0)) = Some [7] \<and>
   due_now 1 (debounced 0 [7::nat] (init (returns :: (nat, unit) action) 0)) \<and>
   truthy (timeoutRef (debounced 0 [7::nat] (init (returns :: (nat, unit) action) 0))) \<and>
   timers (rebind (throws ()) (debounced 0 [7::nat] (init returns 0))) = [(1, 0)] \<and>
   calls (snd (fire 1 (rebind (throws ()) (debounced 0 [7::nat] (init returns 0)))))
     = [(0, throws (), [7])] \<and>
   calls (snd (flush (rebind (throws ()) (debounced 0 [7::nat] (init returns 0)))))
     = [(0, throws (), [7])] \<and>
   calls (rebind (throws ()) (snd (fire 1 (debounced 0 [7::nat] (init returns 0)))))
     = [(0, returns, [7])]"
  using rebind_next_execution
    [of "throws ()" "debounced 0 [7::nat] (init returns 0)" "[7]" 1]
  by (simp add: init_def debounced_def setTimeout_def due_now_def truthy_def)

text \<open>
  Claim C8. A trigger with delay 0 makes no call: it schedules a timer due at the current
  instant and keeps its handle. The call is made when the host runs that timer.
\<close>

theorem trigger_zero_delay_defers:
  "calls (debounced 0 args s) = calls s \<and>
   timeoutRef (debounced 0 args s) = Some (next_handle s) \<and>
   (next_handle s, now s) \<in> set (timers (debounced 0 args s)) \<and>
   calls (snd (fire (next_handle s) (debounced 0 args s)))
     = calls s @ [(now s, callbackRef s, args)]"
proof -
  have due: "due_now (next_handle s) (debounced 0 args s)"
    by (auto simp: op_defs split: option.splits)
  have "calls (snd (fire (next_handle s) (debounced 0 args s)))
          = calls s @ [(now s, callbackRef s, args)]"
    unfolding fire_def using due
    by (auto simp: timer_callback_def invoke_def debounced_def clearTimeout_def setTimeout_def Let_def
        split: option.splits prod.splits)
  then show ?thesis
    by (auto simp: debounced_def clearTimeout_def setTimeout_def Let_def split: option.splits)
qed

text \<open>
  Claim C8 on a fresh controller.
\<close>

theorem trigger_zero_delay_defers_witness:
  "calls (debounced 0 [5::nat] (init (returns :: (nat, unit) action) 0)) = [] \<and>
   timers (debounced 0 [5::nat] (init (returns :: (nat, unit) action) 0)) = [(1, 0)] \<and>
   calls (snd (fire 1 (debounced 0 [5::nat] (init (returns :: (nat, unit) action) 0))))
     = [(0, returns, [5])]"
  using trigger_zero_delay_defers [of "[5::nat]" "init (returns :: (nat, unit) action) 0"]
  by (simp add: init_def debounced_def setTimeout_def)

text \<open>
  Claim C9, refuted as stated. A trigger, then its timer runs and the action throws: the
  host has nothing scheduled, but \<open>timeoutRef\<close> still holds the handle and the
  arguments are still stored. \<open>flush\<close> then calls the action a second time and throws,
  and \<open>cancel\<close> changes the state.
\<close>

theorem cancel_flush_idle_counterexample:
  "idle (snd (run 300 [Trigger [7::nat], Advance 300, Fire 1] (init (throws ()) 0))) \<and>
   fst (flush (snd (run 300 [Trigger [7::nat], Advance 300, Fire 1] (init (throws ()) 0))))
     = Some () \<and>
   length (calls (snd (flush
       (snd (run 300 [Trigger [7::nat], Advance 300, Fire 1] (init (throws ()) 0)))))) = 2 \<and>
   cancel (snd (run 300 [Trigger [7::nat], Advance 300, Fire 1] (init (throws ()) 0)))
     \<noteq> snd (run 300 [Trigger [7::nat], Advance 300, Fire 1] (init (throws ()) 0))"
  by (simp add: idle_def init_def op_defs throws_def)

text \<open>
  Claim C9, amended, for an action that does not call back into the controller. Take a
  reachable state with no execution scheduled. If no timer callback of the run threw, or
  if the flag is clear, \<open>cancel\<close> and \<open>flush\<close> return the state unchanged and
  \<open>flush\<close> does not throw. In general each of them leaves the state unchanged exactly
  when \<open>timeoutRef\<close> holds no handle.
\<close>

theorem cancel_flush_idle:
  assumes "run delay evs (init cb t0) = (rs, s)" and "idle s"
  shows "((\<forall>p \<in> set (zip evs rs). is_fire (fst p) \<longrightarrow> snd p = None) \<longrightarrow>
            cancel s = s \<and> flush s = (None, s)) \<and>
         (\<not> isPending s \<longrightarrow> cancel s = s \<and> flush s = (None, s)) \<and>
         (cancel s = s \<longleftrightarrow> timeoutRef s = None) \<and>
         (flush s = (None, s) \<longleftrightarrow> timeoutRef s = None)"
proof -
  have ok: "host_ok s"
    using assms(1) by (rule reachable_host_ok)
  note iff = noop_iff_no_handle [OF ok]
  have a: "timeoutRef s = None"
    if "\<forall>p \<in> set (zip evs rs). is_fire (fst p) \<longrightarrow> snd p = None"
  proof -
    have "timers (snd (run delay evs (init cb t0))) = []
            \<longrightarrow> timeoutRef (snd (run delay evs (init cb t0))) = None"
      using that assms(1)
      by (intro run_no_stale_handle settled_host_ok init_settled) (simp_all add: init_def)
    with assms show ?thesis
      by (simp add: idle_def)
  qed
  have b: "timeoutRef s = None" if "\<not> isPending s"
    using ok that by (cases "timeoutRef s") (simp_all add: host_ok_def)
  from iff have c: "timeoutRef s = None \<Longrightarrow> cancel s = s \<and> flush s = (None, s)"
    by simp
  from a c have first: "(\<forall>p \<in> set (zip evs rs). is_fire (fst p) \<longrightarrow> snd p = None) \<longrightarrow>
      cancel s = s \<and> flush s = (None, s)"
    by (intro impI) simp
  from b c have second: "\<not> isPending s \<longrightarrow> cancel s = s \<and> flush s = (None, s)"
    by (intro impI) simp
  from first second iff show ?thesis
    by (intro conjI) simp_all
qed

text \<open>
  Claim C9, amended, on the state after a trigger and a cancel.
\<close>

theorem cancel_flush_idle_witness:
  "run 300 [Trigger [1::nat], Cancel] (init (throws ()) 0)
     = ([None, None], snd (run 300 [Trigger [1::nat], Cancel] (init (throws ()) 0))) \<and>
   idle (snd (run 300 [Trigger [1::nat], Cancel] (init (throws ()) 0))) \<and>
   \<not> is_fire (Trigger [1::nat] :: (nat, unit) event) \<and> \<not> is_fire (Cancel :: (nat, unit) event) \<and>
   \<not> isPending (snd (run 300 [Trigger [1::nat], Cancel] (init (throws ()) 0))) \<and>
   timeoutRef (snd (run 300 [Trigger [1::nat], Cancel] (init (throws ()) 0))) = None \<and>
   cancel (snd (run 300 [Trigger [1::nat], Cancel] (init (throws ()) 0)))
     = snd (run 300 [Trigger [1::nat], Cancel] (init (throws ()) 0)) \<and>
   flush (snd (run 300 [Trigger [1::nat], Cancel] (init (throws ()) 0)))
     = (None, snd (run 300 [Trigger [1::nat], Cancel] (init (throws ()) 0)))"
  using cancel_flush_idle
    [of 300 "[Trigger [1::nat], Cancel]" "throws ()" 0 "[None, None]"
        "snd (run 300 [Trigger [1::nat], Cancel] (init (throws ()) 0))"]
  by (simp add: idle_def init_def op_defs)

section \<open>Properties of the toast provider\<close>







end
